theory Spec2Isabelle
  imports Main "HOL-Library.Sublist"
begin

section \<open>The Orbit C++ chat client: request builder and incremental response parser\<close>

text \<open>
  A shallow embedding of \<^verbatim>\<open>clients/cpp/src/api_client.cpp\<close> and of the declarations in
  \<^verbatim>\<open>clients/cpp/include/orbit/api_client.hpp\<close>.

  \<^item> A \<^verbatim>\<open>std::string\<close> is a \<^typ>\<open>string\<close>, a list of bytes.
  \<^item> A \<^verbatim>\<open>size_t\<close> position is a \<^typ>\<open>nat\<close>; \<^verbatim>\<open>std::string::npos\<close> is \<^term>\<open>None\<close>
    of a \<^typ>\<open>nat option\<close>. Every subtraction of the source is guarded by the code
    itself (\<^verbatim>\<open>nl - pos\<close> with \<^verbatim>\<open>pos <= nl\<close>, \<^verbatim>\<open>end - start - 1\<close> with \<^verbatim>\<open>start < end\<close>,
    \<^verbatim>\<open>size() - 8\<close> behind \<^verbatim>\<open>size() >= 8\<close>), so no wrap-around is reachable.
  \<^item> A C++ exception is the left summand of a result of type \<open>exn + 'a\<close>.
  \<^item> The caller's callback is modelled by its trace: the list of \<open>StreamResponse\<close> values
    it has been invoked with, oldest first.
  \<^item> libcurl is an external collaborator. The model records the values that
    \<^verbatim>\<open>stream_chat\<close> hands to it (URL, body, header list) as the \<^verbatim>\<open>std::string\<close> values the
    code builds, and takes the transport's behaviour (whether a handle is created, the
    chunks it delivers, its completion code) as a parameter. Where the code passes
    \<^verbatim>\<open>s.c_str()\<close>, libcurl receives a C string: the bytes of \<open>s\<close> before its first zero byte.
\<close>

subsection \<open>Bytes with a role in the source\<close>

abbreviation NL :: char where "NL \<equiv> CHR 0x0A"
abbreviation CR :: char where "CR \<equiv> CHR 0x0D"
abbreviation DQ :: char where "DQ \<equiv> CHR 0x22"
abbreviation BS :: char where "BS \<equiv> CHR 0x5C"

subsection \<open>The members of \<^verbatim>\<open>std::string\<close> the code calls\<close>

datatype exn = out_of_range | runtime_error string

text \<open>\<^verbatim>\<open>s.find(c, pos)\<close>: the least index \<open>i \<ge> pos\<close> with \<open>s[i] == c\<close>, or \<^verbatim>\<open>npos\<close>.\<close>

primrec index_from :: "char \<Rightarrow> nat \<Rightarrow> string \<Rightarrow> nat option" where
  "index_from c i [] = None"
| "index_from c i (x # xs) = (if x = c then Some i else index_from c (Suc i) xs)"

definition find_char :: "string \<Rightarrow> char \<Rightarrow> nat \<Rightarrow> nat option" where
  "find_char s c pos = index_from c pos (drop pos s)"

text \<open>\<^verbatim>\<open>s.find(pat, pos)\<close>: the least index \<open>i \<ge> pos\<close> at which \<open>pat\<close> occurs in \<open>s\<close>, or
  \<^verbatim>\<open>npos\<close> (also when \<open>pos > s.size()\<close>).\<close>

primrec search_from :: "string \<Rightarrow> nat \<Rightarrow> string \<Rightarrow> nat option" where
  "search_from pat i [] = (if pat = [] then Some i else None)"
| "search_from pat i (x # xs) =
     (if prefix pat (x # xs) then Some i else search_from pat (Suc i) xs)"

definition find_str :: "string \<Rightarrow> string \<Rightarrow> nat \<Rightarrow> nat option" where
  "find_str s pat pos = (if length s < pos then None else search_from pat pos (drop pos s))"

text \<open>\<^verbatim>\<open>s.rfind(pat, pos)\<close>: the greatest index \<open>i \<le> pos\<close> at which \<open>pat\<close> occurs in \<open>s\<close>, or
  \<^verbatim>\<open>npos\<close>. The default \<open>pos = npos\<close> is \<^term>\<open>None\<close>. The scan starts at
  \<open>min(pos, size - pat.size())\<close> and runs downwards.\<close>

primrec rsearch :: "string \<Rightarrow> string \<Rightarrow> nat \<Rightarrow> nat option" where
  "rsearch s pat 0 = (if prefix pat s then Some 0 else None)"
| "rsearch s pat (Suc i) =
     (if prefix pat (drop (Suc i) s) then Some (Suc i) else rsearch s pat i)"

definition rfind_str :: "string \<Rightarrow> string \<Rightarrow> nat option \<Rightarrow> nat option" where
  "rfind_str s pat pos =
     (if length s < length pat then None
      else rsearch s pat (case pos of None \<Rightarrow> length s - length pat
                                    | Some p \<Rightarrow> min p (length s - length pat)))"

text \<open>\<^verbatim>\<open>s.substr(pos, n)\<close>: throws \<^verbatim>\<open>std::out_of_range\<close> when \<open>pos > s.size()\<close>, else the
  at most \<open>n\<close> bytes from \<open>pos\<close> on. The default \<open>n = npos\<close> is \<^term>\<open>None\<close>.\<close>

definition substr :: "string \<Rightarrow> nat \<Rightarrow> nat option \<Rightarrow> exn + string" where
  "substr s pos n =
     (if length s < pos then Inl out_of_range
      else Inr (case n of None \<Rightarrow> drop pos s | Some k \<Rightarrow> take k (drop pos s)))"

subsection \<open>The data of the header file\<close>

record StreamResponse =
  "text" :: string
  "done" :: bool

text \<open>The private members \<^verbatim>\<open>api_url_\<close>, \<^verbatim>\<open>api_key_\<close>, \<^verbatim>\<open>session_id_\<close> of \<^verbatim>\<open>ApiClient\<close>
  (the trailing underscore is dropped).\<close>

record ApiClient =
  api_url :: string
  api_key :: string
  session_id :: string

subsection \<open>\<^verbatim>\<open>ApiClient::endpoint\<close>\<close>

definition endpoint :: "ApiClient \<Rightarrow> string" where
  "endpoint c =
     (if 8 \<le> length (api_url c) \<and>
         rfind_str (api_url c) ''/v1/chat'' None = Some (length (api_url c) - 8)
      then api_url c
      else if api_url c \<noteq> [] \<and> last (api_url c) = CHR ''/'' then api_url c @ ''v1/chat''
      else api_url c @ ''/v1/chat'')"

subsection \<open>The response parser: \<^verbatim>\<open>WriteCtx\<close> and \<^verbatim>\<open>on_write\<close>\<close>

text \<open>The member \<^verbatim>\<open>cb\<close> holds the trace of the callback: the units it has been called
  with so far. \<^verbatim>\<open>ctx->cb(r)\<close> appends \<open>r\<close> to it.\<close>

record WriteCtx =
  cb :: "StreamResponse list"
  buffer :: string

text \<open>The literal \<^verbatim>\<open>"\"response\":"\<close> of the source, eleven bytes.\<close>

definition key :: string where
  \<open>key = ''"response":''\<close>

text \<open>
  The body of the \<^verbatim>\<open>for (;;)\<close> loop once \<^verbatim>\<open>line\<close> is cut out: the result is the list of the
  calls of \<^verbatim>\<open>ctx->cb\<close> made for this line, or the exception a \<^verbatim>\<open>substr\<close> throws.
  \<^verbatim>\<open>line.rfind("data: ", 0) == 0\<close> is the source's test for the prefix.
\<close>

definition handle_line :: "string \<Rightarrow> exn + StreamResponse list" where
  "handle_line line =
     (if rfind_str line ''data: '' (Some 0) = Some 0 then
        (case substr line 6 None of
           Inl e \<Rightarrow> Inl e
         | Inr payload \<Rightarrow>
             if payload = ''[DONE]'' \<or> payload = [] then Inr [\<lparr>text = [], done = True\<rparr>]
             else
               (case find_str payload key 0 of
                  Some kpos \<Rightarrow>
                    (case find_char payload DQ (kpos + length key) of
                       Some start \<Rightarrow>
                         (case find_char payload DQ (start + 1) of
                            Some end' \<Rightarrow>
                              (case substr payload (start + 1) (Some (end' - start - 1)) of
                                 Inl e \<Rightarrow> Inl e
                               | Inr t \<Rightarrow> Inr [\<lparr>text = t, done = False\<rparr>])
                          | None \<Rightarrow> Inr [])
                     | None \<Rightarrow> Inr [])
                | None \<Rightarrow> Inr [\<lparr>text = payload, done = False\<rparr>]))
      else Inr [])"

text \<open>What \<^verbatim>\<open>find\<close> returns, needed for the termination of the loop: a hit at \<open>k\<close> splits
  the text from \<open>pos\<close> on into a part free of \<open>c\<close>, of length \<open>k - pos\<close>, the byte \<open>c\<close>, and
  the rest.\<close>

lemma index_from_Some:
  "index_from c i xs = Some k \<Longrightarrow> \<exists>a b. xs = a @ c # b \<and> c \<notin> set a \<and> k = i + length a"
proof (induction xs arbitrary: i)
  case Nil
  then show ?case by simp
next
  case (Cons x xs)
  show ?case
  proof (cases "x = c")
    case True
    with Cons.prems have "x # xs = [] @ c # xs \<and> c \<notin> set [] \<and> k = i + length ([]::string)"
      by simp
    then show ?thesis by blast
  next
    case False
    with Cons.prems have "index_from c (Suc i) xs = Some k" by simp
    from Cons.IH [OF this] obtain a b
      where "xs = a @ c # b" "c \<notin> set a" "k = Suc i + length a" by blast
    with False have "x # xs = (x # a) @ c # b \<and> c \<notin> set (x # a) \<and> k = i + length (x # a)"
      by simp
    then show ?thesis by blast
  qed
qed

lemma find_char_Some:
  assumes "find_char s c pos = Some k"
  shows "\<exists>a b. drop pos s = a @ c # b \<and> c \<notin> set a \<and> k = pos + length a"
  using assms index_from_Some [of c pos "drop pos s" k] by (simp add: find_char_def)

lemma find_char_bounds:
  assumes "find_char s c pos = Some k"
  shows "pos \<le> k \<and> k < length s"
proof -
  from find_char_Some [OF assms] obtain a b
    where d: "drop pos s = a @ c # b" and k: "k = pos + length a" by blast
  from d have "length (drop pos s) = length a + Suc (length b)" by simp
  then have "length s - pos = length a + Suc (length b)" by simp
  with k show ?thesis by arith
qed

text \<open>
  The \<^verbatim>\<open>for (;;)\<close> loop: \<open>buf\<close> is \<^verbatim>\<open>ctx->buffer\<close> after the append (the loop does not change
  it), \<open>pos\<close> the scan position, \<open>calls\<close> the trace of the callback. It returns the final
  \<open>pos\<close> and the trace.
\<close>

function on_write_loop ::
  "string \<Rightarrow> nat \<Rightarrow> StreamResponse list \<Rightarrow> exn + (nat \<times> StreamResponse list)" where
  "on_write_loop buf pos calls =
     (case find_char buf NL pos of
        None \<Rightarrow> Inr (pos, calls)
      | Some nl \<Rightarrow>
          (case substr buf pos (Some (nl - pos)) of
             Inl e \<Rightarrow> Inl e
           | Inr line \<Rightarrow>
               (case handle_line line of
                  Inl e \<Rightarrow> Inl e
                | Inr us \<Rightarrow> on_write_loop buf (nl + 1) (calls @ us))))"
  by pat_completeness auto
termination
proof (relation "measure (\<lambda>(buf, pos, calls). length buf - pos)")
  show "wf (measure (\<lambda>(buf, pos, calls). length buf - pos))" by simp
next
  fix buf :: string and pos nl :: nat and calls us :: "StreamResponse list" and line :: string
  assume "find_char buf NL pos = Some nl"
  from find_char_bounds [OF this]
  show "((buf, nl + 1, calls @ us), (buf, pos, calls))
          \<in> measure (\<lambda>(buf, pos, calls). length buf - pos)"
    by simp arith
qed

declare on_write_loop.simps [simp del]

text \<open>
  \<^verbatim>\<open>on_write(ptr, size, nmemb, userdata)\<close>: \<open>ptr\<close> is the memory at \<^verbatim>\<open>ptr\<close>, of which the
  first \<open>size * nmemb\<close> bytes are appended; the result is the return value and the
  context after the call.
\<close>

definition on_write :: "string \<Rightarrow> nat \<Rightarrow> nat \<Rightarrow> WriteCtx \<Rightarrow> exn + (nat \<times> WriteCtx)" where
  "on_write ptr sz nmemb ctx =
     (let total = sz * nmemb;
          buf = buffer ctx @ take total ptr
      in case on_write_loop buf 0 (cb ctx) of
           Inl e \<Rightarrow> Inl e
         | Inr (pos, calls) \<Rightarrow>
             (case substr buf pos None of
                Inl e \<Rightarrow> Inl e
              | Inr rest \<Rightarrow> Inr (total, \<lparr>cb = calls, buffer = rest\<rparr>)))"

subsection \<open>\<^verbatim>\<open>ApiClient::stream_chat\<close>\<close>

text \<open>The \<^verbatim>\<open>for (char c : message)\<close> loop: \<open>os\<close> is the text written to the stream so far.\<close>

fun escape_loop :: "string \<Rightarrow> string \<Rightarrow> string" where
  "escape_loop os [] = os"
| "escape_loop os (c # cs) =
     escape_loop (if c = BS then os @ [BS, BS]
                  else if c = DQ then os @ [BS, DQ]
                  else if c = NL then os @ [BS, CHR ''n'']
                  else os @ [c]) cs"

text \<open>The local \<^verbatim>\<open>payload\<close> of \<^verbatim>\<open>stream_chat\<close>: the three writes to \<^verbatim>\<open>os\<close>, in order.\<close>

definition stream_chat_payload :: "string \<Rightarrow> bool \<Rightarrow> string" where
  \<open>stream_chat_payload message stream =
     (let os = ''{"messages":[{"role":"user","content":'';
          os = escape_loop os message;
          os = os @ ''}],"stream":'' @ (if stream then ''true'' else ''false'') @ ''}''
      in os)\<close>

text \<open>\<^verbatim>\<open>s.c_str()\<close> as a C function reads it: the bytes up to the first zero byte, all of
  \<open>s\<close> when it holds none.\<close>

definition c_str :: "string \<Rightarrow> string" where
  "c_str s = takeWhile (\<lambda>b. b \<noteq> CHR 0x00) s"

text \<open>libcurl's \<^verbatim>\<open>curl_slist_append\<close>: the list with a copy of the C string added at its
  end (a null list is the empty list).\<close>

definition curl_slist_append :: "string list \<Rightarrow> string \<Rightarrow> string list" where
  "curl_slist_append headers h = headers @ [h]"

text \<open>The header list of \<^verbatim>\<open>stream_chat\<close>: the first two arguments are string literals, the
  other two go through \<^verbatim>\<open>c_str()\<close>.\<close>

definition stream_chat_headers :: "ApiClient \<Rightarrow> bool \<Rightarrow> string list" where
  "stream_chat_headers c stream =
     (let headers = [];
          headers = curl_slist_append headers ''Content-Type: application/json'';
          headers = curl_slist_append headers
                      (if stream then ''Accept: text/event-stream'' else ''Accept: application/json'');
          headers = (if api_key c \<noteq> []
                     then curl_slist_append headers (c_str (''X-API-Key: '' @ api_key c))
                     else headers);
          headers = (if session_id c \<noteq> []
                     then curl_slist_append headers (c_str (''X-Session-ID: '' @ session_id c))
                     else headers)
      in headers)"

text \<open>
  The transport. What libcurl does is not code of this repository; it is a parameter of
  the model: whether \<^verbatim>\<open>curl_easy_init\<close> returns a handle, the chunks of the response body
  that \<^verbatim>\<open>curl_easy_perform\<close> hands to the write callback, in order, and the code it
  returns when no write callback stops it. libcurl calls the write callback with
  \<open>size = 1\<close> and \<open>nmemb\<close> the number of bytes, and ends the transfer with
  \<^verbatim>\<open>CURLE_WRITE_ERROR\<close> when the callback returns another number than it was given.
\<close>

datatype CURLcode = CURLE_OK | CURLE_WRITE_ERROR | CURLE_OTHER nat

record transport =
  init_ok :: bool
  chunks :: "string list"
  completion :: CURLcode

fun curl_easy_perform ::
  "string list \<Rightarrow> CURLcode \<Rightarrow> WriteCtx \<Rightarrow> (exn + CURLcode) \<times> WriteCtx" where
  "curl_easy_perform [] code ctx = (Inr code, ctx)"
| "curl_easy_perform (chunk # later) code ctx =
     (case on_write chunk 1 (length chunk) ctx of
        Inl e \<Rightarrow> (Inl e, ctx)
      | Inr (n, ctx') \<Rightarrow>
          if n \<noteq> length chunk then (Inr CURLE_WRITE_ERROR, ctx')
          else curl_easy_perform later code ctx')"

text \<open>The options set on the handle, and what a call of \<^verbatim>\<open>stream_chat\<close> leaves behind:
  the exception it throws if any, the calls of \<^verbatim>\<open>on_chunk\<close> it made, and the request it
  configured (none when no handle was created).\<close>

record request =
  opt_url :: string
  opt_post :: bool
  opt_postfields :: string
  opt_httpheader :: "string list"

record outcome =
  raised :: "exn option"
  on_chunk_calls :: "StreamResponse list"
  configured :: "request option"

definition stream_chat :: "ApiClient \<Rightarrow> string \<Rightarrow> bool \<Rightarrow> transport \<Rightarrow> outcome" where
  "stream_chat c message stream t =
     (if \<not> init_ok t
      then \<lparr>raised = Some (runtime_error ''Failed to init curl''),
            on_chunk_calls = [], configured = None\<rparr>
      else
        let req = \<lparr>opt_url = c_str (endpoint c), opt_post = True,
                   opt_postfields = c_str (stream_chat_payload message stream),
                   opt_httpheader = stream_chat_headers c stream\<rparr>;
            ctx = \<lparr>cb = [], buffer = []\<rparr>
        in case curl_easy_perform (chunks t) (completion t) ctx of
             (Inl e, ctx') \<Rightarrow>
               \<lparr>raised = Some e, on_chunk_calls = cb ctx', configured = Some req\<rparr>
           | (Inr res, ctx') \<Rightarrow>
               if res \<noteq> CURLE_OK
               then \<lparr>raised = Some (runtime_error ''Request failed''),
                     on_chunk_calls = cb ctx', configured = Some req\<rparr>
               else \<lparr>raised = None, on_chunk_calls = cb ctx', configured = Some req\<rparr>)"

subsection \<open>The escaping, as the specification words it\<close>

text \<open>Backslash, double quote and newline become the two bytes \<^verbatim>\<open>\\\<close>, \<^verbatim>\<open>\"\<close> and \<^verbatim>\<open>\n\<close>
  (a backslash and the letter n); every other byte stays.\<close>

definition escaped :: "char \<Rightarrow> string" where
  "escaped c =
     (if c = BS then [BS, BS] else if c = DQ then [BS, DQ]
      else if c = NL then [BS, CHR ''n''] else [c])"

subsection \<open>Lines of a byte stream, as the specification words them\<close>

text \<open>The complete lines of a stream (each ended by a newline, which is not part of the
  line) and the unterminated remainder after the last newline.\<close>

fun lines_acc :: "string \<Rightarrow> string \<Rightarrow> string list" where
  "lines_acc cur [] = []"
| "lines_acc cur (c # cs) = (if c = NL then cur # lines_acc [] cs else lines_acc (cur @ [c]) cs)"

fun rest_acc :: "string \<Rightarrow> string \<Rightarrow> string" where
  "rest_acc cur [] = cur"
| "rest_acc cur (c # cs) = (if c = NL then rest_acc [] cs else rest_acc (cur @ [c]) cs)"

definition complete_lines :: "string \<Rightarrow> string list" where
  "complete_lines s = lines_acc [] s"

definition remainder :: "string \<Rightarrow> string" where
  "remainder s = rest_acc [] s"

text \<open>The units the callback receives for one line.\<close>

definition units_of_line :: "string \<Rightarrow> StreamResponse list" where
  "units_of_line line = (case handle_line line of Inl e \<Rightarrow> [] | Inr us \<Rightarrow> us)"

definition units_of_stream :: "string \<Rightarrow> StreamResponse list" where
  "units_of_stream s = concat (map units_of_line (complete_lines s))"

section \<open>Properties\<close>

subsection \<open>The string members\<close>

lemma rsearch_le: "rsearch s pat i = Some k \<Longrightarrow> k \<le> i"
  by (induction i) (auto split: if_splits)

lemma rsearch_top: "rsearch s pat i = Some i \<longleftrightarrow> prefix pat (drop i s)"
proof (cases i)
  case 0
  then show ?thesis by simp
next
  case (Suc j)
  then show ?thesis using rsearch_le [of s pat j "Suc j"] by auto
qed

lemma prefix_drop_suffix:
  "length pat \<le> length s \<Longrightarrow> prefix pat (drop (length s - length pat) s) \<longleftrightarrow> suffix pat s"
proof
  assume len: "length pat \<le> length s" and p: "prefix pat (drop (length s - length pat) s)"
  have "length (drop (length s - length pat) s) = length pat" using len by simp
  moreover from p obtain zs where "drop (length s - length pat) s = pat @ zs"
    by (auto simp: prefix_def)
  ultimately have "drop (length s - length pat) s = pat" by auto
  then show "suffix pat s" by (metis suffix_drop)
next
  assume len: "length pat \<le> length s" and "suffix pat s"
  then obtain zs where s: "s = zs @ pat" by (auto simp: suffix_def)
  then show "prefix pat (drop (length s - length pat) s)" by simp
qed

lemma rfind_str_end:
  "length pat = n \<Longrightarrow> n \<le> length s \<Longrightarrow>
   rfind_str s pat None = Some (length s - n) \<longleftrightarrow> suffix pat s"
  by (auto simp: rfind_str_def rsearch_top prefix_drop_suffix)

lemma suffix_slash: "suffix ''/'' s \<longleftrightarrow> s \<noteq> [] \<and> last s = CHR ''/''"
proof
  assume "suffix ''/'' s"
  then show "s \<noteq> [] \<and> last s = CHR ''/''" by (auto simp: suffix_def)
next
  assume "s \<noteq> [] \<and> last s = CHR ''/''"
  then have "s = butlast s @ ''/''" by (metis append_butlast_last_id)
  then show "suffix ''/'' s" by (metis suffixI)
qed

lemma index_from_None: "index_from c i xs = None \<Longrightarrow> c \<notin> set xs"
  by (induction xs arbitrary: i) (auto split: if_splits)

lemma index_from_split: "c \<notin> set a \<Longrightarrow> index_from c i (a @ c # b) = Some (i + length a)"
  by (induction a arbitrary: i) auto

lemma index_from_absent: "c \<notin> set xs \<Longrightarrow> index_from c i xs = None"
  by (induction xs arbitrary: i) auto

lemma find_char_split:
  "length p = pos \<Longrightarrow> c \<notin> set a \<Longrightarrow> find_char (p @ a @ c # b) c pos = Some (pos + length a)"
  by (simp add: find_char_def index_from_split)

lemma find_char_absent:
  "length p = pos \<Longrightarrow> c \<notin> set a \<Longrightarrow> find_char (p @ a) c pos = None"
  by (simp add: find_char_def index_from_absent)

lemma find_char_None: "find_char s c pos = None \<Longrightarrow> c \<notin> set (drop pos s)"
  by (simp add: find_char_def index_from_None)

lemma search_from_here: "prefix pat s \<Longrightarrow> search_from pat i s = Some i"
  by (cases s) auto

lemma search_from_first:
  "\<forall>j<length pre. \<not> prefix pat (drop j (pre @ pat @ post)) \<Longrightarrow>
   search_from pat i (pre @ pat @ post) = Some (i + length pre)"
proof (induction pre arbitrary: i)
  case Nil
  then show ?case by (simp add: search_from_here)
next
  case (Cons x pre)
  from Cons.prems have "\<not> prefix pat (drop 0 ((x # pre) @ pat @ post))" by blast
  then have np: "\<not> prefix pat (x # pre @ pat @ post)" by simp
  have "\<forall>j<length pre. \<not> prefix pat (drop j (pre @ pat @ post))"
  proof (intro allI impI)
    fix j assume "j < length pre"
    then have "Suc j < length (x # pre)" by simp
    with Cons.prems have "\<not> prefix pat (drop (Suc j) ((x # pre) @ pat @ post))" by blast
    then show "\<not> prefix pat (drop j (pre @ pat @ post))" by simp
  qed
  from Cons.IH [OF this, of "Suc i"] np show ?case by simp
qed

lemma search_from_absent: "\<not> sublist pat s \<Longrightarrow> search_from pat i s = None"
proof (induction s arbitrary: i)
  case Nil
  then show ?case by auto
next
  case (Cons x xs)
  from Cons.prems have "\<not> prefix pat (x # xs)" and "\<not> sublist pat xs"
    by (simp_all add: sublist_Cons_right)
  then show ?case using Cons.IH by simp
qed

lemma search_from_Some_sublist: "search_from pat i s = Some k \<Longrightarrow> sublist pat s"
  by (induction s arbitrary: i) (auto split: if_splits simp: sublist_Cons_right)

lemma rfind_str_0: "rfind_str line pat (Some 0) = Some 0 \<longleftrightarrow> prefix pat line"
  by (auto simp: rfind_str_def dest: prefix_length_le)

subsection \<open>The endpoint\<close>

text \<open>
  Claim C5. For every base URL: when it ends with the suffix \<^verbatim>\<open>/v1/chat\<close> the endpoint is
  the base URL itself; otherwise, when it ends with \<^verbatim>\<open>/\<close>, the endpoint is the base URL
  followed by \<^verbatim>\<open>v1/chat\<close>; otherwise it is the base URL followed by \<^verbatim>\<open>/v1/chat\<close>.
\<close>

theorem endpoint_suffix_cases:
  "endpoint c =
     (if suffix ''/v1/chat'' (api_url c) then api_url c
      else if suffix ''/'' (api_url c) then api_url c @ ''v1/chat''
      else api_url c @ ''/v1/chat'')"
proof (cases "8 \<le> length (api_url c)")
  case True
  then have "rfind_str (api_url c) ''/v1/chat'' None = Some (length (api_url c) - 8)
             \<longleftrightarrow> suffix ''/v1/chat'' (api_url c)"
    using rfind_str_end [of "''/v1/chat''" 8 "api_url c"] by simp
  with True show ?thesis by (simp add: endpoint_def suffix_slash)
next
  case False
  then have "\<not> suffix ''/v1/chat'' (api_url c)"
    by (auto dest: suffix_length_le)
  with False show ?thesis by (simp add: endpoint_def suffix_slash)
qed

theorem endpoint_suffix_cases_witness:
  "endpoint \<lparr>api_url = ''http://h/v1/chat'', api_key = [], session_id = []\<rparr> = ''http://h/v1/chat''
   \<and> endpoint \<lparr>api_url = ''http://h/'', api_key = [], session_id = []\<rparr> = ''http://h/v1/chat''
   \<and> endpoint \<lparr>api_url = ''http://h'', api_key = [], session_id = []\<rparr> = ''http://h/v1/chat''"
  using endpoint_suffix_cases [of "\<lparr>api_url = ''http://h/v1/chat'', api_key = [], session_id = []\<rparr>"]
        endpoint_suffix_cases [of "\<lparr>api_url = ''http://h/'', api_key = [], session_id = []\<rparr>"]
        endpoint_suffix_cases [of "\<lparr>api_url = ''http://h'', api_key = [], session_id = []\<rparr>"]
  by (simp add: suffix_def append_eq_Cons_conv)

subsection \<open>One line\<close>

lemma length_key: "length key = 11"
  by (simp add: key_def)

lemma key_neq: "key \<noteq> []"
  by (simp add: key_def)

lemma find_str_0: "find_str s pat 0 = search_from pat 0 s"
  by (simp add: find_str_def)

lemma substr_ok: "pos \<le> length s \<Longrightarrow>
  substr s pos n = Inr (case n of None \<Rightarrow> drop pos s | Some k \<Rightarrow> take k (drop pos s))"
  by (simp add: substr_def)

lemma handle_line_no_prefix: "\<not> prefix ''data: '' line \<Longrightarrow> handle_line line = Inr []"
  by (simp add: handle_line_def rfind_str_0)

lemma handle_line_data:
  "handle_line (''data: '' @ payload) =
     (if payload = ''[DONE]'' \<or> payload = [] then Inr [\<lparr>text = [], done = True\<rparr>]
      else
        (case find_str payload key 0 of
           Some kpos \<Rightarrow>
             (case find_char payload DQ (kpos + length key) of
                Some start \<Rightarrow>
                  (case find_char payload DQ (start + 1) of
                     Some end' \<Rightarrow>
                       (case substr payload (start + 1) (Some (end' - start - 1)) of
                          Inl e \<Rightarrow> Inl e
                        | Inr t \<Rightarrow> Inr [\<lparr>text = t, done = False\<rparr>])
                   | None \<Rightarrow> Inr [])
              | None \<Rightarrow> Inr [])
         | None \<Rightarrow> Inr [\<lparr>text = payload, done = False\<rparr>]))"
proof -
  have "rfind_str (''data: '' @ payload) ''data: '' (Some 0) = Some 0"
    by (simp add: rfind_str_0)
  moreover have "substr (''data: '' @ payload) 6 None = Inr payload"
    by (simp add: substr_def)
  ultimately show ?thesis
    by (simp add: handle_line_def)
qed

lemma handle_line_total: "\<exists>us. handle_line line = Inr us \<and> length us \<le> 1"
proof (cases "prefix ''data: '' line")
  case False
  then show ?thesis by (simp add: handle_line_no_prefix)
next
  case True
  then obtain payload where line: "line = ''data: '' @ payload" by (auto simp: prefix_def)
  have sub: "\<And>start e. find_char payload DQ (Suc start) = Some e \<Longrightarrow>
      substr payload (Suc start) (Some (e - Suc start))
        = Inr (take (e - Suc start) (drop (Suc start) payload))"
  proof -
    fix start e assume "find_char payload DQ (Suc start) = Some e"
    from find_char_bounds [OF this] have "Suc start \<le> length payload" by arith
    then show "substr payload (Suc start) (Some (e - Suc start))
        = Inr (take (e - Suc start) (drop (Suc start) payload))"
      by (simp add: substr_ok)
  qed
  show ?thesis unfolding line handle_line_data
    by (auto split: option.splits simp: sub)
qed

lemma handle_line_units: "handle_line line = Inr (units_of_line line)"
  using handle_line_total [of line] by (auto simp: units_of_line_def)

lemma handle_line_done_unit:
  "payload = ''[DONE]'' \<or> payload = [] \<Longrightarrow>
   handle_line (''data: '' @ payload) = Inr [\<lparr>text = [], done = True\<rparr>]"
  by (simp only: handle_line_data if_True)

lemma sublist_not_done: "sublist key payload \<Longrightarrow> payload \<noteq> ''[DONE]'' \<and> payload \<noteq> []"
proof -
  assume "sublist key payload"
  then have "length key \<le> length payload" by (rule sublist_length_le)
  then have "11 \<le> length payload" by (simp add: length_key)
  then show ?thesis by auto
qed

lemma handle_line_fallback:
  assumes "payload \<noteq> ''[DONE]''" "payload \<noteq> []" "\<not> sublist key payload"
  shows "handle_line (''data: '' @ payload) = Inr [\<lparr>text = payload, done = False\<rparr>]"
proof -
  from assms(3) have "find_str payload key 0 = None"
    by (simp add: find_str_0 search_from_absent)
  with assms(1,2) show ?thesis unfolding handle_line_data by simp
qed

lemma find_str_first:
  assumes "payload = pre @ key @ post"
    and "\<forall>j<length pre. \<not> prefix key (drop j payload)"
  shows "find_str payload key 0 = Some (length pre)"
  using assms search_from_first [of pre key post 0] by (simp add: find_str_0)

lemma handle_line_extract:
  assumes p: "payload = pre @ key @ mid @ DQ # txt @ DQ # rest"
    and first: "\<forall>j<length pre. \<not> prefix key (drop j payload)"
    and nq_mid: "DQ \<notin> set mid" and nq_txt: "DQ \<notin> set txt"
  shows "handle_line (''data: '' @ payload) = Inr [\<lparr>text = txt, done = False\<rparr>]"
proof -
  have nd: "payload \<noteq> ''[DONE]'' \<and> payload \<noteq> []"
    using p by (intro sublist_not_done) (auto simp: sublist_def)
  have k: "find_str payload key 0 = Some (length pre)"
    using p first by (intro find_str_first [where post = "mid @ DQ # txt @ DQ # rest"]) simp_all
  have "payload = (pre @ key) @ mid @ DQ # (txt @ DQ # rest)" using p by simp
  then have s: "find_char payload DQ (length pre + length key) = Some (length pre + length key + length mid)"
    using find_char_split [of "pre @ key" "length pre + length key" DQ mid "txt @ DQ # rest"] nq_mid
    by simp
  have "payload = (pre @ key @ mid @ [DQ]) @ txt @ DQ # rest" using p by simp
  then have e: "find_char payload DQ (length pre + length key + length mid + 1)
                = Some (length pre + length key + length mid + 1 + length txt)"
    using find_char_split [of "pre @ key @ mid @ [DQ]" "length pre + length key + length mid + 1"
            DQ "txt" rest] nq_txt
    by simp
  have t: "substr payload (length pre + length key + length mid + 1) (Some (length txt)) = Inr txt"
    using p by (simp add: substr_def)
  show ?thesis
    unfolding handle_line_data using nd k s e t by simp
qed

lemma handle_line_skip:
  assumes p: "payload = pre @ key @ post"
    and first: "\<forall>j<length pre. \<not> prefix key (drop j payload)"
    and few: "length (filter (\<lambda>c. c = DQ) post) < 2"
  shows "handle_line (''data: '' @ payload) = Inr []"
proof -
  have nd: "payload \<noteq> ''[DONE]'' \<and> payload \<noteq> []"
    using p by (intro sublist_not_done) (auto simp: sublist_def)
  have k: "find_str payload key 0 = Some (length pre)"
    using p first by (rule find_str_first)
  have d: "drop (length pre + length key) payload = post" using p by simp
  show ?thesis
  proof (cases "find_char payload DQ (length pre + length key)")
    case None
    with nd k show ?thesis unfolding handle_line_data by simp
  next
    case (Some start)
    from find_char_Some [OF this] d obtain a b
      where post: "post = a @ DQ # b" and a: "DQ \<notin> set a"
        and start: "start = length pre + length key + length a" by auto
    from few post have b: "DQ \<notin> set b"
      by (auto simp: filter_empty_conv)
    have "payload = (pre @ key @ a @ [DQ]) @ b" using p post by simp
    then have "find_char payload DQ (start + 1) = None"
      using find_char_absent [of "pre @ key @ a @ [DQ]" "start + 1" DQ b] b start by simp
    with nd k Some show ?thesis unfolding handle_line_data by simp
  qed
qed


subsection \<open>Lines and remainder of a stream\<close>

lemma lines_acc_split: "NL \<notin> set a \<Longrightarrow> lines_acc cur (a @ NL # b) = (cur @ a) # lines_acc [] b"
  by (induction a arbitrary: cur) auto

lemma lines_acc_none: "NL \<notin> set a \<Longrightarrow> lines_acc cur a = []"
  by (induction a arbitrary: cur) auto

lemma rest_acc_split: "NL \<notin> set a \<Longrightarrow> rest_acc cur (a @ NL # b) = rest_acc [] b"
  by (induction a arbitrary: cur) auto

lemma rest_acc_none: "NL \<notin> set a \<Longrightarrow> rest_acc cur a = cur @ a"
  by (induction a arbitrary: cur) auto

lemma complete_lines_split:
  "NL \<notin> set a \<Longrightarrow> complete_lines (a @ NL # b) = a # complete_lines b"
  by (simp add: complete_lines_def lines_acc_split)

lemma complete_lines_none: "NL \<notin> set a \<Longrightarrow> complete_lines a = []"
  by (simp add: complete_lines_def lines_acc_none)

lemma remainder_split: "NL \<notin> set a \<Longrightarrow> remainder (a @ NL # b) = remainder b"
  by (simp add: remainder_def rest_acc_split)

lemma remainder_none: "NL \<notin> set a \<Longrightarrow> remainder a = a"
  by (simp add: remainder_def rest_acc_none)

lemma lines_acc_append:
  "lines_acc cur (x @ y) = lines_acc cur x @ lines_acc (rest_acc cur x) y"
  by (induction x arbitrary: cur) auto

lemma rest_acc_append: "rest_acc cur (x @ y) = rest_acc (rest_acc cur x) y"
  by (induction x arbitrary: cur) auto


subsection \<open>The loop of \<^verbatim>\<open>on_write\<close>\<close>

lemma on_write_loop_lines:
  "pos \<le> length buf \<Longrightarrow>
   \<exists>p. on_write_loop buf pos calls
         = Inr (p, calls @ concat (map units_of_line (complete_lines (drop pos buf))))
       \<and> p \<le> length buf \<and> drop p buf = remainder (drop pos buf)"
proof (induction buf pos calls rule: on_write_loop.induct)
  case (1 buf pos calls)
  show ?case
  proof (cases "find_char buf NL pos")
    case None
    then have "NL \<notin> set (drop pos buf)" by (rule find_char_None)
    then have "complete_lines (drop pos buf) = []" and "remainder (drop pos buf) = drop pos buf"
      by (simp_all add: complete_lines_none remainder_none)
    moreover from None have "on_write_loop buf pos calls = Inr (pos, calls)"
      by (subst on_write_loop.simps) simp
    ultimately show ?thesis using "1.prems" by simp
  next
    case (Some nl)
    from find_char_Some [OF Some] obtain a b
      where d: "drop pos buf = a @ NL # b" and a: "NL \<notin> set a" and nl: "nl = pos + length a"
      by blast
    from find_char_bounds [OF Some] have le: "nl + 1 \<le> length buf" by arith
    have line: "substr buf pos (Some (nl - pos)) = Inr a"
      using "1.prems" d nl by (simp add: substr_def)
    have hl: "handle_line a = Inr (units_of_line a)" by (rule handle_line_units)
    have "drop (nl + 1) buf = drop (length a + 1) (drop pos buf)"
      using nl by (simp add: add.commute)
    then have b: "drop (nl + 1) buf = b" using d by simp
    from "1.IH" [OF Some line hl le] obtain p
      where ih: "on_write_loop buf (nl + 1) (calls @ units_of_line a)
            = Inr (p, (calls @ units_of_line a) @ concat (map units_of_line (complete_lines b)))"
        and p: "p \<le> length buf" "drop p buf = remainder b"
      unfolding b by blast
    have "on_write_loop buf pos calls = on_write_loop buf (nl + 1) (calls @ units_of_line a)"
      using Some line hl by (subst on_write_loop.simps) simp
    with ih p d a show ?thesis
      by (simp add: complete_lines_split remainder_split)
  qed
qed

lemma on_write_lines:
  "on_write ptr sz nmemb ctx =
     Inr (sz * nmemb,
          \<lparr>cb = cb ctx @ units_of_stream (buffer ctx @ take (sz * nmemb) ptr),
           buffer = remainder (buffer ctx @ take (sz * nmemb) ptr)\<rparr>)"
proof -
  define buf where "buf = buffer ctx @ take (sz * nmemb) ptr"
  from on_write_loop_lines [of 0 buf "cb ctx"] obtain p
    where l: "on_write_loop buf 0 (cb ctx) = Inr (p, cb ctx @ units_of_stream buf)"
      and p: "p \<le> length buf" "drop p buf = remainder buf"
    by (auto simp: units_of_stream_def)
  from p have "substr buf p None = Inr (remainder buf)" by (simp add: substr_def)
  with l show ?thesis unfolding on_write_def Let_def buf_def [symmetric] by simp
qed

subsection \<open>A stream delivered in chunks\<close>

lemma rest_acc_no_nl: "NL \<notin> set cur \<Longrightarrow> NL \<notin> set (rest_acc cur x)"
  by (induction x arbitrary: cur) auto

lemma remainder_no_nl: "NL \<notin> set (remainder s)"
  by (simp add: remainder_def rest_acc_no_nl)

lemma lines_acc_no_nl: "NL \<notin> set cur \<Longrightarrow> \<forall>l \<in> set (lines_acc cur x). NL \<notin> set l"
proof (induction x arbitrary: cur)
  case Nil
  show ?case by simp
next
  case (Cons c x)
  show ?case
  proof (cases "c = NL")
    case True
    with Cons.prems Cons.IH [of "[]"] show ?thesis by simp
  next
    case False
    with Cons.prems Cons.IH [of "cur @ [c]"] show ?thesis by simp
  qed
qed

lemma complete_lines_no_nl: "\<forall>l \<in> set (complete_lines s). NL \<notin> set l"
  using lines_acc_no_nl [of "[]" s] by (simp add: complete_lines_def)

lemma lines_acc_concat:
  "concat (map (\<lambda>l. l @ [NL]) (lines_acc cur x)) @ rest_acc cur x = cur @ x"
  by (induction x arbitrary: cur) auto

lemma lines_concat:
  "concat (map (\<lambda>l. l @ [NL]) (complete_lines s)) @ remainder s = s"
  using lines_acc_concat [of "[]" s] by (simp add: complete_lines_def remainder_def)

lemma lines_acc_shift: "NL \<notin> set cur \<Longrightarrow> lines_acc [] (cur @ y) = lines_acc cur y"
  by (simp add: lines_acc_append lines_acc_none rest_acc_none)

lemma rest_acc_shift: "NL \<notin> set cur \<Longrightarrow> rest_acc [] (cur @ y) = rest_acc cur y"
  by (simp add: rest_acc_append rest_acc_none)

lemma complete_lines_append:
  "complete_lines (x @ y) = complete_lines x @ complete_lines (remainder x @ y)"
proof -
  have "NL \<notin> set (rest_acc [] x)" by (simp add: rest_acc_no_nl)
  then have "lines_acc [] (rest_acc [] x @ y) = lines_acc (rest_acc [] x) y"
    by (rule lines_acc_shift)
  then show ?thesis
    by (simp only: complete_lines_def remainder_def lines_acc_append [of "[]" x y])
qed

lemma remainder_append: "remainder (x @ y) = remainder (remainder x @ y)"
proof -
  have "NL \<notin> set (rest_acc [] x)" by (simp add: rest_acc_no_nl)
  then have "rest_acc [] (rest_acc [] x @ y) = rest_acc (rest_acc [] x) y"
    by (rule rest_acc_shift)
  then show ?thesis
    by (simp only: remainder_def rest_acc_append [of "[]" x y])
qed

lemma units_of_stream_append:
  "units_of_stream (x @ y) = units_of_stream x @ units_of_stream (remainder x @ y)"
  by (simp only: units_of_stream_def complete_lines_append [of x y] map_append concat_append)

lemma remainder_suffix:
  "(s = a @ NL # b \<and> NL \<notin> set b \<longrightarrow> remainder s = b) \<and> (NL \<notin> set s \<longrightarrow> remainder s = s)"
proof (intro conjI impI)
  assume "s = a @ NL # b \<and> NL \<notin> set b"
  then have "remainder s = remainder (remainder (a @ [NL]) @ b)" and b: "NL \<notin> set b"
    using remainder_append [of "a @ [NL]" b] by simp_all
  moreover have "remainder (a @ [NL]) = []"
    by (simp add: remainder_def rest_acc_append)
  ultimately show "remainder s = b" by (simp add: remainder_none)
next
  assume "NL \<notin> set s"
  then show "remainder s = s" by (rule remainder_none)
qed

lemma remainder_ends_nl: "a = [] \<or> last a = NL \<Longrightarrow> remainder a = []"
proof (cases "a = []")
  case True
  then show ?thesis by (simp add: remainder_def)
next
  case False
  assume "a = [] \<or> last a = NL"
  with False have "a = butlast a @ [NL]" by (metis append_butlast_last_id)
  then have "remainder a = remainder (butlast a @ [NL])" by simp
  also have "\<dots> = []" by (simp add: remainder_def rest_acc_append)
  finally show ?thesis .
qed


lemma curl_easy_perform_lines:
  "NL \<notin> set (buffer ctx) \<Longrightarrow>
   curl_easy_perform cs code ctx =
     (Inr code, \<lparr>cb = cb ctx @ units_of_stream (buffer ctx @ concat cs),
                 buffer = remainder (buffer ctx @ concat cs)\<rparr>)"
proof (induction cs arbitrary: ctx)
  case Nil
  then show ?case by (simp add: units_of_stream_def complete_lines_none remainder_none)
next
  case (Cons c cs)
  define ctx' where
    "ctx' = \<lparr>cb = cb ctx @ units_of_stream (buffer ctx @ c), buffer = remainder (buffer ctx @ c)\<rparr>"
  have w: "on_write c 1 (length c) ctx = Inr (length c, ctx')"
    by (simp add: on_write_lines ctx'_def)
  have "NL \<notin> set (buffer ctx')" by (simp add: ctx'_def remainder_no_nl)
  from Cons.IH [OF this] w
  have step: "curl_easy_perform (c # cs) code ctx =
     (Inr code, \<lparr>cb = cb ctx' @ units_of_stream (buffer ctx' @ concat cs),
                 buffer = remainder (buffer ctx' @ concat cs)\<rparr>)"
    by simp
  have u: "units_of_stream (buffer ctx @ c @ concat cs)
           = units_of_stream (buffer ctx @ c) @ units_of_stream (remainder (buffer ctx @ c) @ concat cs)"
    using units_of_stream_append [of "buffer ctx @ c" "concat cs"] by simp
  have r: "remainder (buffer ctx @ c @ concat cs)
           = remainder (remainder (buffer ctx @ c) @ concat cs)"
    using remainder_append [of "buffer ctx @ c" "concat cs"] by simp
  show ?case unfolding step by (simp add: ctx'_def u [symmetric] r [symmetric])
qed

subsection \<open>The request\<close>

lemma escape_loop_concat: "escape_loop os msg = os @ concat (map escaped msg)"
  by (induction msg arbitrary: os) (simp_all add: escaped_def)

lemma concat_escaped_clean:
  "BS \<notin> set msg \<Longrightarrow> DQ \<notin> set msg \<Longrightarrow> NL \<notin> set msg \<Longrightarrow> concat (map escaped msg) = msg"
  by (induction msg) (auto simp: escaped_def)

text \<open>
  Claim C6. The escaping applied to the message replaces every backslash, double quote
  and newline by the two bytes backslash-backslash, backslash-quote and backslash-n,
  leaves every other byte as it is and keeps the order (it is the concatenation, in
  order, of the images of the bytes); on a message with none of the three bytes it is the
  identity, and so applying it again changes nothing.
\<close>

theorem escape_loop_spec:
  "escape_loop os msg = os @ concat (map escaped msg)
   \<and> escaped BS = [BS, BS] \<and> escaped DQ = [BS, DQ] \<and> escaped NL = [BS, CHR ''n'']
   \<and> (\<forall>c. c \<noteq> BS \<and> c \<noteq> DQ \<and> c \<noteq> NL \<longrightarrow> escaped c = [c])
   \<and> (BS \<notin> set msg \<and> DQ \<notin> set msg \<and> NL \<notin> set msg \<longrightarrow>
        escape_loop [] msg = msg \<and> escape_loop [] (escape_loop [] msg) = escape_loop [] msg)"
  by (simp add: escape_loop_concat concat_escaped_clean escaped_def)

theorem escape_loop_spec_witness:
  \<open>escape_loop [] ([CHR ''a'', DQ, BS, NL, CHR ''b'']) = [CHR ''a'', BS, DQ, BS, BS, BS, CHR ''n'', CHR ''b'']
   \<and> escape_loop [] ''plain text'' = ''plain text''
   \<and> escape_loop [] (escape_loop [] ''plain text'') = escape_loop [] ''plain text''\<close>
  using escape_loop_spec [of "[]" "[CHR ''a'', DQ, BS, NL, CHR ''b'']"]
        escape_loop_spec [of "[]" "''plain text''"]
  by (simp add: escaped_def)

lemma stream_chat_payload_eq:
  \<open>stream_chat_payload message stream =
     ''{"messages":[{"role":"user","content":'' @ concat (map escaped message)
       @ ''}],"stream":'' @ (if stream then ''true'' else ''false'') @ ''}''\<close>
  by (simp add: stream_chat_payload_def escape_loop_concat)

text \<open>
  Claim C1, at the message \<^verbatim>\<open>hi\<close> with the stream flag set: the body the code builds
  is \<^verbatim>\<open>{"messages":[{"role":"user","content":hi}],"stream":true}\<close>. The escaped message is
  written right after the colon and right before the closing brace: no double quote is
  written around it, so the body differs from the text of the claim.
\<close>

theorem stream_chat_payload_unquoted:
  \<open>stream_chat_payload ''hi'' True = ''{"messages":[{"role":"user","content":hi}],"stream":true}''
   \<and> stream_chat_payload ''hi'' True \<noteq> ''{"messages":[{"role":"user","content":"hi"}],"stream":true}''\<close>
  by (simp add: stream_chat_payload_def)

lemma c_str_clean: "CHR 0x00 \<notin> set s \<Longrightarrow> c_str s = s"
  by (auto simp: c_str_def takeWhile_eq_all_conv)

lemma c_str_api_key: "c_str (''X-API-Key: '' @ k) = ''X-API-Key: '' @ c_str k"
  by (simp add: c_str_def)

lemma c_str_session_id: "c_str (''X-Session-ID: '' @ k) = ''X-Session-ID: '' @ c_str k"
  by (simp add: c_str_def)

lemma stream_chat_headers_eq:
  "stream_chat_headers c stream =
     [''Content-Type: application/json'',
      if stream then ''Accept: text/event-stream'' else ''Accept: application/json'']
     @ (if api_key c \<noteq> [] then [''X-API-Key: '' @ c_str (api_key c)] else [])
     @ (if session_id c \<noteq> [] then [''X-Session-ID: '' @ c_str (session_id c)] else [])"
  unfolding stream_chat_headers_def curl_slist_append_def Let_def c_str_api_key c_str_session_id
  by simp

subsection \<open>Units of a line, totality, and \<^verbatim>\<open>stream_chat\<close>\<close>

lemma units_of_line_eq: "units_of_line l = us \<longleftrightarrow> handle_line l = Inr us"
  using handle_line_units [of l] by auto

lemma units_of_line_le1: "length (units_of_line l) \<le> 1"
  using handle_line_total [of l] handle_line_units [of l] by auto

lemma units_of_line_no_prefix: "\<not> prefix ''data: '' l \<Longrightarrow> units_of_line l = []"
  by (simp add: units_of_line_eq handle_line_no_prefix)

lemma sublist_take_drop: "sublist (take n (drop m xs)) (p @ xs)"
proof -
  have "sublist (take n (drop m xs)) (drop m xs)" by (rule sublist_take)
  also have "sublist (drop m xs) xs" by (rule sublist_drop)
  also have "sublist xs (p @ xs)" by (rule sublist_append_leftI)
  finally show ?thesis .
qed

lemma units_of_line_sublist: "u \<in> set (units_of_line l) \<Longrightarrow> sublist (text u) l"
proof (cases "prefix ''data: '' l")
  case False
  assume "u \<in> set (units_of_line l)"
  with False show ?thesis by (simp add: units_of_line_no_prefix)
next
  case True
  assume u: "u \<in> set (units_of_line l)"
  from True obtain payload where l: "l = ''data: '' @ payload" by (auto simp: prefix_def)
  define us where "us = units_of_line l"
  define line where "line = ''data: '' @ payload"
  have "handle_line line = Inr us"
    unfolding us_def line_def l by (rule handle_line_units)
  then have eq: "(if payload = ''[DONE]'' \<or> payload = [] then Inr [\<lparr>text = [], done = True\<rparr>]
      else
        (case find_str payload key 0 of
           Some kpos \<Rightarrow>
             (case find_char payload DQ (kpos + length key) of
                Some start \<Rightarrow>
                  (case find_char payload DQ (start + 1) of
                     Some end' \<Rightarrow>
                       (case substr payload (start + 1) (Some (end' - start - 1)) of
                          Inl e \<Rightarrow> Inl e
                        | Inr t \<Rightarrow> Inr [\<lparr>text = t, done = False\<rparr>])
                   | None \<Rightarrow> Inr [])
              | None \<Rightarrow> Inr [])
         | None \<Rightarrow> Inr [\<lparr>text = payload, done = False\<rparr>])) = Inr us"
    unfolding line_def handle_line_data .
  have full: "sublist payload line" unfolding line_def by (rule sublist_append_leftI)
  have part: "\<And>n m. sublist (take n (drop m payload)) line"
    unfolding line_def by (rule sublist_take_drop)
  from u have "u \<in> set us" by (simp add: us_def)
  with eq full part have "sublist (text u) line"
    by (auto split: if_splits option.splits sum.splits simp: substr_def)
  then show ?thesis by (simp add: line_def l)
qed

lemma on_write_total: "\<exists>ctx'. on_write ptr sz nmemb ctx = Inr (sz * nmemb, ctx')"
  by (simp add: on_write_lines)

lemma stream_chat_started:
  "init_ok t \<Longrightarrow>
   stream_chat c message stream t =
     \<lparr>raised = (if completion t \<noteq> CURLE_OK then Some (runtime_error ''Request failed'') else None),
      on_chunk_calls = units_of_stream (concat (chunks t)),
      configured = Some \<lparr>opt_url = c_str (endpoint c), opt_post = True,
                         opt_postfields = c_str (stream_chat_payload message stream),
                         opt_httpheader = stream_chat_headers c stream\<rparr>\<rparr>"
  by (simp add: stream_chat_def Let_def curl_easy_perform_lines)

lemma stream_chat_no_handle:
  "\<not> init_ok t \<Longrightarrow>
   stream_chat c message stream t =
     \<lparr>raised = Some (runtime_error ''Failed to init curl''), on_chunk_calls = [], configured = None\<rparr>"
  by (simp add: stream_chat_def)


lemmas eval_line =
  units_of_stream_def complete_lines_def remainder_def units_of_line_def handle_line_def
  rfind_str_def substr_def find_str_def find_char_def key_def

subsection \<open>The parser on concrete streams and in general\<close>

text \<open>
  Claim C4. From the empty buffer, the chunk \<^verbatim>\<open>data: {"response":"hel\<close> (no newline) makes no
  call of the callback and is retained whole; the chunk \<^verbatim>\<open>lo"}\<close> with its newline then
  completes the line, makes the one call with text \<^verbatim>\<open>hello\<close> and \<open>done = false\<close>, and leaves
  the buffer empty. Delivered by the transport one after the other, the two chunks make
  exactly that one call in total.
\<close>

theorem on_write_split_token:
  \<open>on_write ''data: {"response":"hel'' 1 22 \<lparr>cb = [], buffer = []\<rparr>
     = Inr (22, \<lparr>cb = [], buffer = ''data: {"response":"hel''\<rparr>)
   \<and> on_write (''lo"}'' @ [NL]) 1 5 \<lparr>cb = [], buffer = ''data: {"response":"hel''\<rparr>
     = Inr (5, \<lparr>cb = [\<lparr>text = ''hello'', done = False\<rparr>], buffer = []\<rparr>)
   \<and> curl_easy_perform [''data: {"response":"hel'', ''lo"}'' @ [NL]] CURLE_OK \<lparr>cb = [], buffer = []\<rparr>
     = (Inr CURLE_OK, \<lparr>cb = [\<lparr>text = ''hello'', done = False\<rparr>], buffer = []\<rparr>)\<close>
  by (simp add: on_write_lines eval_line)


lemma complete_lines_middle:
  assumes "before = [] \<or> last before = NL" and "NL \<notin> set line"
  shows "complete_lines (before @ line @ NL # after)
           = complete_lines before @ line # complete_lines after"
    and "remainder (before @ line @ NL # after) = remainder after"
proof -
  from assms(1) have ra: "remainder before = []" by (rule remainder_ends_nl)
  have "complete_lines (before @ line @ NL # after)
        = complete_lines before @ complete_lines (line @ NL # after)"
    using complete_lines_append [of before "line @ NL # after"] ra by simp
  also have "complete_lines (line @ NL # after) = line # complete_lines after"
    using assms(2) by (rule complete_lines_split)
  finally show "complete_lines (before @ line @ NL # after)
           = complete_lines before @ line # complete_lines after" .
  have "remainder (before @ line @ NL # after) = remainder (line @ NL # after)"
    using remainder_append [of before "line @ NL # after"] ra by simp
  also have "\<dots> = remainder after" using assms(2) by (rule remainder_split)
  finally show "remainder (before @ line @ NL # after) = remainder after" .
qed

lemma on_write_middle:
  assumes "buffer ctx @ take (sz * nmemb) ptr = before @ line @ NL # after"
    and "before = [] \<or> last before = NL" and "NL \<notin> set line"
  shows "on_write ptr sz nmemb ctx =
     Inr (sz * nmemb,
          \<lparr>cb = cb ctx @ units_of_stream before @ units_of_line line @ units_of_stream after,
           buffer = remainder after\<rparr>)"
  unfolding on_write_lines assms(1) units_of_stream_def
    complete_lines_middle [OF assms(2,3)]
  by simp

text \<open>
  Claim C2. A complete line delivered to the parser: the buffer followed by the chunk is
  \<open>before\<close> (empty or ending with a newline), the line, its newline, and \<open>after\<close>. Then
  \<open>on_write\<close> calls the callback with the units of the lines of \<open>before\<close>, then with the
  units of this line, then with those of the lines of \<open>after\<close>, where the units of the line
  are what the loop body \<open>handle_line\<close> emits for it. Without the six-byte prefix \<^verbatim>\<open>data: \<close>
  no unit is emitted. With the prefix and \<open>payload\<close> the rest of the line: when \<open>payload\<close> is
  \<^verbatim>\<open>[DONE]\<close> or empty, the one unit with empty text and \<open>done = true\<close> is emitted; when
  \<open>payload\<close> holds the key \<^verbatim>\<open>"response":\<close>, first at the end of \<open>pre\<close>, then bytes \<open>mid\<close> free of
  double quotes, a double quote, bytes \<open>t\<close> free of double quotes and another double quote,
  the one unit with text \<open>t\<close> and \<open>done = false\<close> is emitted; when the key does not occur in
  \<open>payload\<close> (and \<open>payload\<close> is neither \<^verbatim>\<open>[DONE]\<close> nor empty), the one unit with text
  \<open>payload\<close> and \<open>done = false\<close> is emitted.
\<close>

theorem on_write_line_cases:
  "(buffer ctx @ take (sz * nmemb) ptr = before @ line @ NL # after
      \<and> (before = [] \<or> last before = NL) \<and> NL \<notin> set line \<longrightarrow>
      on_write ptr sz nmemb ctx =
        Inr (sz * nmemb,
             \<lparr>cb = cb ctx @ units_of_stream before @ units_of_line line @ units_of_stream after,
              buffer = remainder after\<rparr>))
   \<and> handle_line line = Inr (units_of_line line)
   \<and> (\<not> prefix ''data: '' line \<longrightarrow> units_of_line line = [])
   \<and> (line = ''data: '' @ payload \<longrightarrow>
        (payload = ''[DONE]'' \<or> payload = [] \<longrightarrow>
           units_of_line line = [\<lparr>text = [], done = True\<rparr>])
      \<and> (payload = pre @ key @ mid @ DQ # t @ DQ # rest
           \<and> (\<forall>j<length pre. \<not> prefix key (drop j payload))
           \<and> DQ \<notin> set mid \<and> DQ \<notin> set t \<longrightarrow>
           units_of_line line = [\<lparr>text = t, done = False\<rparr>])
      \<and> (payload \<noteq> ''[DONE]'' \<and> payload \<noteq> [] \<and> \<not> sublist key payload \<longrightarrow>
           units_of_line line = [\<lparr>text = payload, done = False\<rparr>]))"
proof -
  have a: "buffer ctx @ take (sz * nmemb) ptr = before @ line @ NL # after
      \<and> (before = [] \<or> last before = NL) \<and> NL \<notin> set line \<longrightarrow>
      on_write ptr sz nmemb ctx =
        Inr (sz * nmemb,
             \<lparr>cb = cb ctx @ units_of_stream before @ units_of_line line @ units_of_stream after,
              buffer = remainder after\<rparr>)"
    using on_write_middle [of ctx sz nmemb ptr before line after] by blast
  have b: "handle_line line = Inr (units_of_line line)" by (rule handle_line_units)
  have c: "\<not> prefix ''data: '' line \<longrightarrow> units_of_line line = []"
    using units_of_line_no_prefix [of line] by blast
  have d: "line = ''data: '' @ payload \<longrightarrow>
        (payload = ''[DONE]'' \<or> payload = [] \<longrightarrow>
           units_of_line line = [\<lparr>text = [], done = True\<rparr>])"
    using handle_line_done_unit [of payload] by (simp only: units_of_line_eq) blast
  have e: "line = ''data: '' @ payload \<longrightarrow>
      (payload = pre @ key @ mid @ DQ # t @ DQ # rest
           \<and> (\<forall>j<length pre. \<not> prefix key (drop j payload))
           \<and> DQ \<notin> set mid \<and> DQ \<notin> set t \<longrightarrow>
           units_of_line line = [\<lparr>text = t, done = False\<rparr>])"
    using handle_line_extract [of payload pre mid t rest] by (simp only: units_of_line_eq) blast
  have f: "line = ''data: '' @ payload \<longrightarrow>
      (payload \<noteq> ''[DONE]'' \<and> payload \<noteq> [] \<and> \<not> sublist key payload \<longrightarrow>
           units_of_line line = [\<lparr>text = payload, done = False\<rparr>])"
    using handle_line_fallback [of payload] by (simp only: units_of_line_eq) blast
  from a b c d e f show ?thesis by blast
qed

theorem on_write_line_cases_witness:
  \<open>on_write (''ta: {"response":"hello"}'' @ [NL] @ ''data: plainstring'' @ [NL] @ ''rest'') 1 47
       \<lparr>cb = [\<lparr>text = ''earlier'', done = False\<rparr>], buffer = '': keep-alive'' @ [NL] @ ''da''\<rparr>
     = Inr (47, \<lparr>cb = [\<lparr>text = ''earlier'', done = False\<rparr>, \<lparr>text = ''hello'', done = False\<rparr>,
                       \<lparr>text = ''plainstring'', done = False\<rparr>],
                 buffer = ''rest''\<rparr>)
   \<and> units_of_line '': keep-alive'' = []
   \<and> units_of_line ''data: [DONE]'' = [\<lparr>text = [], done = True\<rparr>]
   \<and> units_of_line ''data: '' = [\<lparr>text = [], done = True\<rparr>]
   \<and> units_of_line ''data: {"response":"hello"}'' = [\<lparr>text = ''hello'', done = False\<rparr>]
   \<and> units_of_line ''data: plainstring'' = [\<lparr>text = ''plainstring'', done = False\<rparr>]\<close>
  using on_write_line_cases [of "\<lparr>cb = [\<lparr>text = ''earlier'', done = False\<rparr>],
                                  buffer = '': keep-alive'' @ [NL] @ ''da''\<rparr>" 1 47
          "''ta: {'' @ key @ [DQ] @ ''hello'' @ [DQ] @ ''}'' @ [NL] @ ''data: plainstring'' @ [NL] @ ''rest''"
          "'': keep-alive'' @ [NL]"
          "''data: {'' @ key @ [DQ] @ ''hello'' @ [DQ] @ ''}''"
          "''data: plainstring'' @ [NL] @ ''rest''"
          "''{'' @ key @ [DQ] @ ''hello'' @ [DQ] @ ''}''"
          "''{''" "[]" "''hello''" "''}''"]
    on_write_line_cases [of "\<lparr>cb = [], buffer = []\<rparr>" 0 0 "[]" "[]" "'': keep-alive''" "[]" "[]" "[]" "[]" "[]" "[]"]
    on_write_line_cases [of "\<lparr>cb = [], buffer = []\<rparr>" 0 0 "[]" "[]" "''data: [DONE]''" "[]" "''[DONE]''" "[]" "[]" "[]" "[]"]
    on_write_line_cases [of "\<lparr>cb = [], buffer = []\<rparr>" 0 0 "[]" "[]" "''data: ''" "[]" "[]" "[]" "[]" "[]" "[]"]
    on_write_line_cases [of "\<lparr>cb = [], buffer = []\<rparr>" 0 0 "[]" "[]" "''data: plainstring''" "[]" "''plainstring''" "[]" "[]" "[]" "[]"]
  by (simp add: key_def sublist_Cons_right units_of_stream_def complete_lines_def remainder_def)

text \<open>
  Claim C3, as stated, fails: the line \<^verbatim>\<open>data: "response":x\<close> begins with \<^verbatim>\<open>data: \<close>, and
  after the chunk that holds it and its newline the callback has not been called and the
  buffer is empty; its bytes are neither delivered nor retained.
\<close>

theorem on_write_drops_prefixed_line:
  \<open>prefix ''data: '' ''data: "response":x''
   \<and> on_write (''data: "response":x'' @ [NL]) 1 19 \<lparr>cb = [], buffer = []\<rparr>
       = Inr (19, \<lparr>cb = [], buffer = []\<rparr>)\<close>
  by (simp add: on_write_lines eval_line)

text \<open>
  Claim C3, amended. After the transport has delivered the chunks \<open>cs\<close> to \<open>on_write\<close>,
  starting from the empty buffer (\<open>cs\<close> is any list of chunks, so this holds after every
  invocation), and after any single invocation: the retained buffer is the remainder of
  the bytes received, which has no newline and follows the complete lines, each with its
  newline, in the bytes received: it is what follows the last newline, or everything when
  there is none. The calls of the callback are those of the complete lines, each line
  handled once and in order, whatever the chunk boundaries. A line gives at most one unit,
  whose text is a contiguous part of that line, so no byte is delivered twice. What is
  delivered and what is discarded, line by line: a line without the prefix \<^verbatim>\<open>data: \<close> is
  discarded whole; of a line with the prefix, the prefix is discarded, and then a payload
  that is \<^verbatim>\<open>[DONE]\<close> or empty gives the unit with empty text and \<open>done = true\<close>; a payload
  without the key is delivered whole, no byte of it dropped; a payload with the key, a
  double quote after it and a next double quote delivers exactly the bytes between the two
  quotes; and a payload with the key and fewer than two double quotes after it is
  discarded whole.
\<close>

theorem stream_lines_once:
  "curl_easy_perform cs code \<lparr>cb = [], buffer = []\<rparr>
     = (Inr code, \<lparr>cb = concat (map units_of_line (complete_lines (concat cs))),
                  buffer = remainder (concat cs)\<rparr>)
   \<and> on_write ptr sz nmemb ctx
     = Inr (sz * nmemb,
            \<lparr>cb = cb ctx @ concat (map units_of_line
                                 (complete_lines (buffer ctx @ take (sz * nmemb) ptr))),
             buffer = remainder (buffer ctx @ take (sz * nmemb) ptr)\<rparr>)
   \<and> concat (map (\<lambda>l. l @ [NL]) (complete_lines (concat cs))) @ remainder (concat cs) = concat cs
   \<and> NL \<notin> set (remainder (concat cs))
   \<and> (\<forall>l \<in> set (complete_lines (concat cs)). NL \<notin> set l)
   \<and> (concat cs = a @ NL # b \<and> NL \<notin> set b \<longrightarrow> remainder (concat cs) = b)
   \<and> (NL \<notin> set (concat cs) \<longrightarrow> remainder (concat cs) = concat cs)
   \<and> handle_line l = Inr (units_of_line l)
   \<and> length (units_of_line l) \<le> 1
   \<and> (\<forall>u \<in> set (units_of_line l). sublist (text u) l)
   \<and> (\<not> prefix ''data: '' l \<longrightarrow> units_of_line l = [])
   \<and> (l = ''data: '' @ payload \<longrightarrow>
        (payload = ''[DONE]'' \<or> payload = [] \<longrightarrow>
           units_of_line l = [\<lparr>text = [], done = True\<rparr>])
      \<and> (payload \<noteq> ''[DONE]'' \<and> payload \<noteq> [] \<and> \<not> sublist key payload \<longrightarrow>
           units_of_line l = [\<lparr>text = payload, done = False\<rparr>])
      \<and> (payload = pre @ key @ mid @ DQ # t @ DQ # rest
           \<and> (\<forall>j<length pre. \<not> prefix key (drop j payload))
           \<and> DQ \<notin> set mid \<and> DQ \<notin> set t \<longrightarrow>
           units_of_line l = [\<lparr>text = t, done = False\<rparr>])
      \<and> (payload = pre @ key @ post
           \<and> (\<forall>j<length pre. \<not> prefix key (drop j payload))
           \<and> length (filter (\<lambda>c. c = DQ) post) < 2 \<longrightarrow>
           units_of_line l = []))"
proof -
  have "curl_easy_perform cs code \<lparr>cb = [], buffer = []\<rparr>
     = (Inr code, \<lparr>cb = concat (map units_of_line (complete_lines (concat cs))),
                  buffer = remainder (concat cs)\<rparr>)"
    using curl_easy_perform_lines [of "\<lparr>cb = [], buffer = []\<rparr>" cs code]
    by (simp add: units_of_stream_def)
  moreover have "on_write ptr sz nmemb ctx
     = Inr (sz * nmemb,
            \<lparr>cb = cb ctx @ concat (map units_of_line
                                 (complete_lines (buffer ctx @ take (sz * nmemb) ptr))),
             buffer = remainder (buffer ctx @ take (sz * nmemb) ptr)\<rparr>)"
    unfolding on_write_lines units_of_stream_def ..
  moreover have "concat (map (\<lambda>l. l @ [NL]) (complete_lines (concat cs))) @ remainder (concat cs)
      = concat cs"
    by (rule lines_concat)
  moreover have "NL \<notin> set (remainder (concat cs))" by (rule remainder_no_nl)
  moreover have "\<forall>l \<in> set (complete_lines (concat cs)). NL \<notin> set l"
    by (rule complete_lines_no_nl)
  moreover have "concat cs = a @ NL # b \<and> NL \<notin> set b \<longrightarrow> remainder (concat cs) = b"
    and "NL \<notin> set (concat cs) \<longrightarrow> remainder (concat cs) = concat cs"
    using remainder_suffix [of "concat cs" a b] by blast+
  moreover have "handle_line l = Inr (units_of_line l)" by (rule handle_line_units)
  moreover have "length (units_of_line l) \<le> 1" by (rule units_of_line_le1)
  moreover have "\<forall>u \<in> set (units_of_line l). sublist (text u) l"
    using units_of_line_sublist [of _ l] by blast
  moreover have "\<not> prefix ''data: '' l \<longrightarrow> units_of_line l = []"
    using units_of_line_no_prefix [of l] by blast
  moreover have "l = ''data: '' @ payload \<longrightarrow>
        (payload = ''[DONE]'' \<or> payload = [] \<longrightarrow>
           units_of_line l = [\<lparr>text = [], done = True\<rparr>])"
    using handle_line_done_unit [of payload] by (simp only: units_of_line_eq) blast
  moreover have "l = ''data: '' @ payload \<longrightarrow>
      (payload \<noteq> ''[DONE]'' \<and> payload \<noteq> [] \<and> \<not> sublist key payload \<longrightarrow>
           units_of_line l = [\<lparr>text = payload, done = False\<rparr>])"
    using handle_line_fallback [of payload] by (simp only: units_of_line_eq) blast
  moreover have "l = ''data: '' @ payload \<longrightarrow>
      (payload = pre @ key @ mid @ DQ # t @ DQ # rest
           \<and> (\<forall>j<length pre. \<not> prefix key (drop j payload))
           \<and> DQ \<notin> set mid \<and> DQ \<notin> set t \<longrightarrow>
           units_of_line l = [\<lparr>text = t, done = False\<rparr>])"
    using handle_line_extract [of payload pre mid t rest] by (simp only: units_of_line_eq) blast
  moreover have "l = ''data: '' @ payload \<longrightarrow>
      (payload = pre @ key @ post
           \<and> (\<forall>j<length pre. \<not> prefix key (drop j payload))
           \<and> length (filter (\<lambda>c. c = DQ) post) < 2 \<longrightarrow>
           units_of_line l = [])"
    using handle_line_skip [of payload pre post] by (simp only: units_of_line_eq) blast
  ultimately show ?thesis by blast
qed

theorem stream_lines_once_witness:
  \<open>curl_easy_perform
       [''data: {"response":"A"}'' @ [NL] @ '': ping'' @ [NL] @ ''data: pla'',
        ''in'' @ [NL] @ ''data: "response":"x'' @ [NL] @ ''data: [DONE]'' @ [NL] @ ''data: tail'']
       CURLE_OK \<lparr>cb = [], buffer = []\<rparr>
     = (Inr CURLE_OK,
        \<lparr>cb = [\<lparr>text = ''A'', done = False\<rparr>, \<lparr>text = ''plain'', done = False\<rparr>,
               \<lparr>text = [], done = True\<rparr>],
         buffer = ''data: tail''\<rparr>)
   \<and> units_of_line ''data: {"response":"A"}'' = [\<lparr>text = ''A'', done = False\<rparr>]
   \<and> units_of_line '': ping'' = []
   \<and> units_of_line ''data: plain'' = [\<lparr>text = ''plain'', done = False\<rparr>]
   \<and> units_of_line ''data: "response":"x'' = []
   \<and> units_of_line ''data: [DONE]'' = [\<lparr>text = [], done = True\<rparr>]\<close>
  using stream_lines_once [of
          "[''data: {'' @ key @ [DQ] @ ''A'' @ [DQ] @ ''}'' @ [NL] @ '': ping'' @ [NL] @ ''data: pla'',
            ''in'' @ [NL] @ ''data: '' @ key @ [DQ] @ ''x'' @ [NL] @ ''data: [DONE]'' @ [NL] @ ''data: tail'']"
          CURLE_OK "[]" 0 0 "\<lparr>cb = [], buffer = []\<rparr>"
          "''data: {'' @ key @ [DQ] @ ''A'' @ [DQ] @ ''}'' @ [NL] @ '': ping'' @ [NL] @ ''data: plain'' @ [NL] @ ''data: '' @ key @ [DQ] @ ''x'' @ [NL] @ ''data: [DONE]''"
          "''data: tail''"
          "''data: {'' @ key @ [DQ] @ ''A'' @ [DQ] @ ''}''"
          "''{'' @ key @ [DQ] @ ''A'' @ [DQ] @ ''}''" "''{''" "[]" "''A''" "''}''" "[]"]
    stream_lines_once [of "[]" CURLE_OK "[]" 0 0 "\<lparr>cb = [], buffer = []\<rparr>" "[]" "[]"
          "'': ping''" "[]" "[]" "[]" "[]" "[]" "[]"]
    stream_lines_once [of "[]" CURLE_OK "[]" 0 0 "\<lparr>cb = [], buffer = []\<rparr>" "[]" "[]"
          "''data: plain''" "''plain''" "[]" "[]" "[]" "[]" "[]"]
    stream_lines_once [of "[]" CURLE_OK "[]" 0 0 "\<lparr>cb = [], buffer = []\<rparr>" "[]" "[]"
          "''data: '' @ key @ [DQ] @ ''x''" "key @ [DQ] @ ''x''" "[]" "[]" "[]" "[]" "[DQ] @ ''x''"]
    stream_lines_once [of "[]" CURLE_OK "[]" 0 0 "\<lparr>cb = [], buffer = []\<rparr>" "[]" "[]"
          "''data: [DONE]''" "''[DONE]''" "[]" "[]" "[]" "[]" "[]"]
  by (simp add: key_def sublist_Cons_right complete_lines_def remainder_def)

text \<open>
  Claim C7. \<open>stream_chat\<close> throws exactly when no transport handle is created or the
  transport completes with another code than \<^verbatim>\<open>CURLE_OK\<close>. \<open>on_write\<close> never throws (and
  returns \<open>size * nmemb\<close>, so it never makes the transport fail), and neither does the
  handling of a line. A payload holding the key, first at the end of \<open>pre\<close>, with fewer
  than two double quotes after it, makes no call of the callback. When a handle was
  created, the calls made to \<open>on_chunk\<close> are those of all complete lines of the chunks
  delivered, whatever the completion code: a failure takes none of them back.
\<close>

theorem stream_chat_raises:
  "raised (stream_chat c message stream t) =
     (if \<not> init_ok t then Some (runtime_error ''Failed to init curl'')
      else if completion t \<noteq> CURLE_OK then Some (runtime_error ''Request failed'')
      else None)
   \<and> (raised (stream_chat c message stream t) \<noteq> None \<longleftrightarrow> \<not> init_ok t \<or> completion t \<noteq> CURLE_OK)
   \<and> (\<exists>ctx'. on_write ptr sz nmemb ctx = Inr (sz * nmemb, ctx'))
   \<and> (\<exists>us. handle_line line = Inr us)
   \<and> (payload = pre @ key @ post
        \<and> (\<forall>j<length pre. \<not> prefix key (drop j payload))
        \<and> length (filter (\<lambda>c. c = DQ) post) < 2 \<longrightarrow>
        handle_line (''data: '' @ payload) = Inr [])
   \<and> (init_ok t \<longrightarrow>
        on_chunk_calls (stream_chat c message stream t)
          = concat (map units_of_line (complete_lines (concat (chunks t)))))"
proof -
  have skip: "payload = pre @ key @ post
        \<and> (\<forall>j<length pre. \<not> prefix key (drop j payload))
        \<and> length (filter (\<lambda>c. c = DQ) post) < 2 \<longrightarrow>
        handle_line (''data: '' @ payload) = Inr []"
    using handle_line_skip [of payload pre post] by blast
  have tot: "\<exists>us. handle_line line = Inr us"
    using handle_line_total [of line] by blast
  have r: "raised (stream_chat c message stream t) =
     (if \<not> init_ok t then Some (runtime_error ''Failed to init curl'')
      else if completion t \<noteq> CURLE_OK then Some (runtime_error ''Request failed'')
      else None)"
    by (cases "init_ok t") (simp_all add: stream_chat_started stream_chat_no_handle)
  then have iff: "raised (stream_chat c message stream t) \<noteq> None
      \<longleftrightarrow> \<not> init_ok t \<or> completion t \<noteq> CURLE_OK"
    by simp
  have calls: "init_ok t \<longrightarrow>
        on_chunk_calls (stream_chat c message stream t)
          = concat (map units_of_line (complete_lines (concat (chunks t))))"
    by (simp add: stream_chat_started units_of_stream_def)
  from r iff on_write_total [of ptr sz nmemb ctx] tot skip calls show ?thesis by blast
qed

theorem stream_chat_raises_witness:
  \<open>raised (stream_chat \<lparr>api_url = ''http://h'', api_key = [], session_id = []\<rparr> ''hi'' True
       \<lparr>init_ok = True, chunks = [''data: "response":"x'' @ [NL] @ ''data: ok'' @ [NL]],
        completion = CURLE_OTHER 7\<rparr>) = Some (runtime_error ''Request failed'')
   \<and> on_chunk_calls (stream_chat \<lparr>api_url = ''http://h'', api_key = [], session_id = []\<rparr> ''hi'' True
       \<lparr>init_ok = True, chunks = [''data: "response":"x'' @ [NL] @ ''data: ok'' @ [NL]],
        completion = CURLE_OTHER 7\<rparr>) = [\<lparr>text = ''ok'', done = False\<rparr>]
   \<and> handle_line ''data: "response":"x'' = Inr []\<close>
  using stream_chat_raises [of "\<lparr>api_url = ''http://h'', api_key = [], session_id = []\<rparr>" "''hi''" True
       "\<lparr>init_ok = True, chunks = [''data: '' @ key @ [DQ] @ ''x'' @ [NL] @ ''data: ok'' @ [NL]],
        completion = CURLE_OTHER 7\<rparr>" "[]" 0 0 "\<lparr>cb = [], buffer = []\<rparr>" "[]"
       "key @ [DQ] @ ''x''" "[]" "[DQ] @ ''x''"]
  by (simp add: eval_line)


lemma curl_easy_perform_start:
  "curl_easy_perform cs code \<lparr>cb = [], buffer = []\<rparr>
     = (Inr code, \<lparr>cb = units_of_stream (concat cs), buffer = remainder (concat cs)\<rparr>)"
  using curl_easy_perform_lines [of "\<lparr>cb = [], buffer = []\<rparr>" cs code] by simp

text \<open>
  Claim C9. Lines end at the byte \<^verbatim>\<open>\n\<close> only and a carriage return before it stays in
  the candidate line: a chunk \<open>a\<close> followed by CR and LF, with no newline in \<open>a\<close>, is handled
  as the one line \<open>a\<close> followed by CR. The line \<^verbatim>\<open>data: [DONE]\<close> followed by CR gives, by the
  fallback branch, the unit with text \<^verbatim>\<open>[DONE]\<close> followed by CR and \<open>done = false\<close>, and that is
  the one call made for the chunk \<^verbatim>\<open>data: [DONE]\r\n\<close>.
\<close>

theorem on_write_keeps_cr:
  "(NL \<notin> set a \<longrightarrow>
      on_write (a @ [CR, NL]) 1 (length (a @ [CR, NL])) \<lparr>cb = [], buffer = []\<rparr>
        = Inr (length (a @ [CR, NL]), \<lparr>cb = units_of_line (a @ [CR]), buffer = []\<rparr>))
   \<and> handle_line (''data: [DONE]'' @ [CR]) = Inr [\<lparr>text = ''[DONE]'' @ [CR], done = False\<rparr>]
   \<and> on_write (''data: [DONE]'' @ [CR, NL]) 1 14 \<lparr>cb = [], buffer = []\<rparr>
        = Inr (14, \<lparr>cb = [\<lparr>text = ''[DONE]'' @ [CR], done = False\<rparr>], buffer = []\<rparr>)"
proof -
  have "NL \<notin> set a \<longrightarrow>
      on_write (a @ [CR, NL]) 1 (length (a @ [CR, NL])) \<lparr>cb = [], buffer = []\<rparr>
        = Inr (length (a @ [CR, NL]), \<lparr>cb = units_of_line (a @ [CR]), buffer = []\<rparr>)"
  proof
    assume "NL \<notin> set a"
    then have n: "NL \<notin> set (a @ [CR])" by simp
    have "complete_lines ((a @ [CR]) @ NL # []) = [a @ [CR]]"
      and "remainder ((a @ [CR]) @ NL # []) = []"
      using complete_lines_split [OF n, of "[]"] remainder_split [OF n, of "[]"]
      by (simp_all add: complete_lines_def remainder_def)
    then show "on_write (a @ [CR, NL]) 1 (length (a @ [CR, NL])) \<lparr>cb = [], buffer = []\<rparr>
        = Inr (length (a @ [CR, NL]), \<lparr>cb = units_of_line (a @ [CR]), buffer = []\<rparr>)"
      by (simp add: on_write_lines units_of_stream_def)
  qed
  moreover have "handle_line (''data: [DONE]'' @ [CR])
      = Inr [\<lparr>text = ''[DONE]'' @ [CR], done = False\<rparr>]"
    by (simp add: eval_line)
  moreover have "on_write (''data: [DONE]'' @ [CR, NL]) 1 14 \<lparr>cb = [], buffer = []\<rparr>
        = Inr (14, \<lparr>cb = [\<lparr>text = ''[DONE]'' @ [CR], done = False\<rparr>], buffer = []\<rparr>)"
    by (simp add: on_write_lines eval_line)
  ultimately show ?thesis by blast
qed

theorem on_write_keeps_cr_witness:
  "on_write (''data: x'' @ [CR, NL]) 1 (length (''data: x'' @ [CR, NL])) \<lparr>cb = [], buffer = []\<rparr>
     = Inr (length (''data: x'' @ [CR, NL]), \<lparr>cb = [\<lparr>text = ''x'' @ [CR], done = False\<rparr>], buffer = []\<rparr>)"
  using on_write_keeps_cr [of "''data: x''"]
  by (simp add: units_of_line_def handle_line_def rfind_str_def substr_def find_str_def
        find_char_def key_def)

text \<open>
  Claim C10. \<open>on_write\<close> always returns \<open>size * nmemb\<close>. A line \<^verbatim>\<open>data: [DONE]\<close> does not stop
  or change the parsing: when the bytes delivered, in whatever chunks, are \<open>a\<close> (empty or
  ending with a newline), the line \<^verbatim>\<open>data: [DONE]\<close> with its newline, and \<open>b\<close>, the calls made
  are those a fresh parser makes on \<open>a\<close>, the unit with \<open>done = true\<close>, and those a fresh
  parser makes on \<open>b\<close>, and the buffer retained is the one a fresh parser retains on \<open>b\<close>.
\<close>

theorem done_does_not_stop:
  "(\<exists>ctx'. on_write ptr sz nmemb ctx = Inr (sz * nmemb, ctx'))
   \<and> (concat cs = a @ ''data: [DONE]'' @ NL # b \<and> (a = [] \<or> last a = NL) \<longrightarrow>
        curl_easy_perform cs code \<lparr>cb = [], buffer = []\<rparr>
          = (Inr code,
             \<lparr>cb = cb (snd (curl_easy_perform [a] code \<lparr>cb = [], buffer = []\<rparr>))
                   @ [\<lparr>text = [], done = True\<rparr>]
                   @ cb (snd (curl_easy_perform [b] code \<lparr>cb = [], buffer = []\<rparr>)),
              buffer = buffer (snd (curl_easy_perform [b] code \<lparr>cb = [], buffer = []\<rparr>))\<rparr>))"
proof -
  have "concat cs = a @ ''data: [DONE]'' @ NL # b \<and> (a = [] \<or> last a = NL) \<longrightarrow>
        curl_easy_perform cs code \<lparr>cb = [], buffer = []\<rparr>
          = (Inr code,
             \<lparr>cb = cb (snd (curl_easy_perform [a] code \<lparr>cb = [], buffer = []\<rparr>))
                   @ [\<lparr>text = [], done = True\<rparr>]
                   @ cb (snd (curl_easy_perform [b] code \<lparr>cb = [], buffer = []\<rparr>)),
              buffer = buffer (snd (curl_easy_perform [b] code \<lparr>cb = [], buffer = []\<rparr>))\<rparr>)"
  proof
    assume h: "concat cs = a @ ''data: [DONE]'' @ NL # b \<and> (a = [] \<or> last a = NL)"
    then have ra: "remainder a = []" by (simp add: remainder_ends_nl)
    have d: "NL \<notin> set ''data: [DONE]''" by simp
    have one: "units_of_line ''data: [DONE]'' = [\<lparr>text = [], done = True\<rparr>]"
      using handle_line_done_unit [of "''[DONE]''"] by (simp add: units_of_line_eq)
    have "complete_lines (a @ ''data: [DONE]'' @ NL # b)
          = complete_lines a @ complete_lines (''data: [DONE]'' @ NL # b)"
      using complete_lines_append [of a "''data: [DONE]'' @ NL # b"] ra by simp
    also have "complete_lines (''data: [DONE]'' @ NL # b) = ''data: [DONE]'' # complete_lines b"
      using d by (rule complete_lines_split)
    finally have u: "units_of_stream (concat cs)
          = units_of_stream a @ [\<lparr>text = [], done = True\<rparr>] @ units_of_stream b"
      using h one by (simp add: units_of_stream_def)
    have "remainder (a @ ''data: [DONE]'' @ NL # b) = remainder (''data: [DONE]'' @ NL # b)"
      using remainder_append [of a "''data: [DONE]'' @ NL # b"] ra by simp
    also have "\<dots> = remainder b" using d by (rule remainder_split)
    finally have r: "remainder (concat cs) = remainder b" using h by simp
    show "curl_easy_perform cs code \<lparr>cb = [], buffer = []\<rparr>
          = (Inr code,
             \<lparr>cb = cb (snd (curl_easy_perform [a] code \<lparr>cb = [], buffer = []\<rparr>))
                   @ [\<lparr>text = [], done = True\<rparr>]
                   @ cb (snd (curl_easy_perform [b] code \<lparr>cb = [], buffer = []\<rparr>)),
              buffer = buffer (snd (curl_easy_perform [b] code \<lparr>cb = [], buffer = []\<rparr>))\<rparr>)"
      by (simp add: curl_easy_perform_start u r del: curl_easy_perform.simps)
  qed
  with on_write_total [of ptr sz nmemb ctx] show ?thesis by blast
qed

theorem done_does_not_stop_witness:
  "curl_easy_perform [''data: [DONE]'' @ [NL] @ ''data: x'' @ [NL] @ ''da'', ''ta: [DONE]'' @ [NL] @ ''data: y'']
       CURLE_OK \<lparr>cb = [], buffer = []\<rparr>
     = (Inr CURLE_OK,
        \<lparr>cb = [\<lparr>text = [], done = True\<rparr>, \<lparr>text = ''x'', done = False\<rparr>, \<lparr>text = [], done = True\<rparr>],
         buffer = ''data: y''\<rparr>)"
  using done_does_not_stop [of "[]" 0 0 "\<lparr>cb = [], buffer = []\<rparr>"
          "[''data: [DONE]'' @ [NL] @ ''data: x'' @ [NL] @ ''da'', ''ta: [DONE]'' @ [NL] @ ''data: y'']"
          "[]" "''data: x'' @ [NL] @ ''data: [DONE]'' @ [NL] @ ''data: y''" CURLE_OK]
  by (simp add: curl_easy_perform_start eval_line del: curl_easy_perform.simps)

subsection \<open>The headers of the request\<close>

text \<open>
  Claim C8, as stated, fails: with the API key \<^verbatim>\<open>a\<close>, zero byte, \<^verbatim>\<open>b\<close> (not empty) the header
  list of the request is \<^verbatim>\<open>Content-Type: application/json\<close>, \<^verbatim>\<open>Accept: text/event-stream\<close>,
  \<^verbatim>\<open>X-API-Key: a\<close>: the header built from the key goes through \<^verbatim>\<open>c_str()\<close> and ends before the
  zero byte, so \<^verbatim>\<open>X-API-Key: \<close> followed by the key is not in the list.
\<close>

theorem stream_chat_cuts_key_at_zero_byte:
  "api_key \<lparr>api_url = ''http://h'', api_key = [CHR ''a'', CHR 0x00, CHR ''b''], session_id = []\<rparr> \<noteq> []
   \<and> map_option opt_httpheader
        (configured (stream_chat
           \<lparr>api_url = ''http://h'', api_key = [CHR ''a'', CHR 0x00, CHR ''b''], session_id = []\<rparr>
           ''hi'' True \<lparr>init_ok = True, chunks = [], completion = CURLE_OK\<rparr>))
       = Some [''Content-Type: application/json'', ''Accept: text/event-stream'', ''X-API-Key: a'']
   \<and> ''X-API-Key: '' @ [CHR ''a'', CHR 0x00, CHR ''b'']
       \<notin> set [''Content-Type: application/json'', ''Accept: text/event-stream'', ''X-API-Key: a'']"
  by (simp add: stream_chat_started stream_chat_headers_eq c_str_def)

text \<open>
  Claim C8, amended. \<open>stream_chat\<close> configures a request exactly when a transport handle is
  created, and the header list of every request it configures holds
  \<^verbatim>\<open>Content-Type: application/json\<close>; it holds \<^verbatim>\<open>Accept: text/event-stream\<close> exactly when the
  stream flag is set and \<^verbatim>\<open>Accept: application/json\<close> exactly when it is not; it holds a
  header starting with \<^verbatim>\<open>X-API-Key: \<close> exactly when the API key is not empty, and that header
  is \<^verbatim>\<open>X-API-Key: \<close> followed by the key up to its first zero byte, which is the whole key
  when it holds no zero byte; the same for \<^verbatim>\<open>X-Session-ID: \<close> and the session id.
\<close>

theorem stream_chat_request_headers:
  "(configured (stream_chat c message stream t) \<noteq> None \<longleftrightarrow> init_ok t)
   \<and> (\<forall>req. configured (stream_chat c message stream t) = Some req \<longrightarrow>
        ''Content-Type: application/json'' \<in> set (opt_httpheader req)
      \<and> (''Accept: text/event-stream'' \<in> set (opt_httpheader req) \<longleftrightarrow> stream)
      \<and> (''Accept: application/json'' \<in> set (opt_httpheader req) \<longleftrightarrow> \<not> stream)
      \<and> ((\<exists>h \<in> set (opt_httpheader req). prefix ''X-API-Key: '' h) \<longleftrightarrow> api_key c \<noteq> [])
      \<and> (\<forall>h \<in> set (opt_httpheader req).
            prefix ''X-API-Key: '' h \<longrightarrow> h = ''X-API-Key: '' @ c_str (api_key c))
      \<and> ((\<exists>h \<in> set (opt_httpheader req). prefix ''X-Session-ID: '' h) \<longleftrightarrow> session_id c \<noteq> [])
      \<and> (\<forall>h \<in> set (opt_httpheader req).
            prefix ''X-Session-ID: '' h \<longrightarrow> h = ''X-Session-ID: '' @ c_str (session_id c)))
   \<and> c_str (api_key c) = takeWhile (\<lambda>b. b \<noteq> CHR 0x00) (api_key c)
   \<and> c_str (session_id c) = takeWhile (\<lambda>b. b \<noteq> CHR 0x00) (session_id c)
   \<and> (CHR 0x00 \<notin> set (api_key c) \<longrightarrow> c_str (api_key c) = api_key c)
   \<and> (CHR 0x00 \<notin> set (session_id c) \<longrightarrow> c_str (session_id c) = session_id c)"
proof -
  have conf: "configured (stream_chat c message stream t) \<noteq> None \<longleftrightarrow> init_ok t"
    by (cases "init_ok t") (simp_all add: stream_chat_started stream_chat_no_handle)
  have hdrs: "\<forall>req. configured (stream_chat c message stream t) = Some req \<longrightarrow>
        ''Content-Type: application/json'' \<in> set (opt_httpheader req)
      \<and> (''Accept: text/event-stream'' \<in> set (opt_httpheader req) \<longleftrightarrow> stream)
      \<and> (''Accept: application/json'' \<in> set (opt_httpheader req) \<longleftrightarrow> \<not> stream)
      \<and> ((\<exists>h \<in> set (opt_httpheader req). prefix ''X-API-Key: '' h) \<longleftrightarrow> api_key c \<noteq> [])
      \<and> (\<forall>h \<in> set (opt_httpheader req).
            prefix ''X-API-Key: '' h \<longrightarrow> h = ''X-API-Key: '' @ c_str (api_key c))
      \<and> ((\<exists>h \<in> set (opt_httpheader req). prefix ''X-Session-ID: '' h) \<longleftrightarrow> session_id c \<noteq> [])
      \<and> (\<forall>h \<in> set (opt_httpheader req).
            prefix ''X-Session-ID: '' h \<longrightarrow> h = ''X-Session-ID: '' @ c_str (session_id c))"
  proof (intro allI impI)
    fix req
    assume r: "configured (stream_chat c message stream t) = Some req"
    with conf have "init_ok t" by auto
    with r have h: "opt_httpheader req = stream_chat_headers c stream"
      by (auto simp: stream_chat_started)
    show "''Content-Type: application/json'' \<in> set (opt_httpheader req)
      \<and> (''Accept: text/event-stream'' \<in> set (opt_httpheader req) \<longleftrightarrow> stream)
      \<and> (''Accept: application/json'' \<in> set (opt_httpheader req) \<longleftrightarrow> \<not> stream)
      \<and> ((\<exists>h \<in> set (opt_httpheader req). prefix ''X-API-Key: '' h) \<longleftrightarrow> api_key c \<noteq> [])
      \<and> (\<forall>h \<in> set (opt_httpheader req).
            prefix ''X-API-Key: '' h \<longrightarrow> h = ''X-API-Key: '' @ c_str (api_key c))
      \<and> ((\<exists>h \<in> set (opt_httpheader req). prefix ''X-Session-ID: '' h) \<longleftrightarrow> session_id c \<noteq> [])
      \<and> (\<forall>h \<in> set (opt_httpheader req).
            prefix ''X-Session-ID: '' h \<longrightarrow> h = ''X-Session-ID: '' @ c_str (session_id c))"
      unfolding h by (auto simp: stream_chat_headers_eq)
  qed
  have "c_str (api_key c) = takeWhile (\<lambda>b. b \<noteq> CHR 0x00) (api_key c)"
    and "c_str (session_id c) = takeWhile (\<lambda>b. b \<noteq> CHR 0x00) (session_id c)"
    by (simp_all add: c_str_def)
  moreover have "CHR 0x00 \<notin> set (api_key c) \<longrightarrow> c_str (api_key c) = api_key c"
    and "CHR 0x00 \<notin> set (session_id c) \<longrightarrow> c_str (session_id c) = session_id c"
    by (simp_all add: c_str_clean)
  ultimately show ?thesis using conf hdrs by blast
qed

theorem stream_chat_request_headers_witness:
  "map_option opt_httpheader
     (configured (stream_chat \<lparr>api_url = ''http://h'', api_key = ''k1'', session_id = []\<rparr>
        ''hi'' True \<lparr>init_ok = True, chunks = [], completion = CURLE_OK\<rparr>))
     = Some [''Content-Type: application/json'', ''Accept: text/event-stream'', ''X-API-Key: k1'']
   \<and> c_str ''k1'' = ''k1''
   \<and> configured (stream_chat \<lparr>api_url = ''http://h'', api_key = ''k1'', session_id = []\<rparr>
        ''hi'' True \<lparr>init_ok = False, chunks = [], completion = CURLE_OK\<rparr>) = None"
  using stream_chat_request_headers [of "\<lparr>api_url = ''http://h'', api_key = ''k1'', session_id = []\<rparr>"
          "''hi''" True "\<lparr>init_ok = True, chunks = [], completion = CURLE_OK\<rparr>"]
        stream_chat_request_headers [of "\<lparr>api_url = ''http://h'', api_key = ''k1'', session_id = []\<rparr>"
          "''hi''" True "\<lparr>init_ok = False, chunks = [], completion = CURLE_OK\<rparr>"]
  by (simp add: stream_chat_started stream_chat_headers_eq c_str_def)

end
